theory Spec2Isabelle
  imports Main
begin

text \<open>
  Package \<^verbatim>\<open>configfile\<close> has one function, \<^verbatim>\<open>Load\<close> (\<^verbatim>\<open>configfile.go\<close>): it opens a
  file, scans it line by line, skips blank lines and \<^verbatim>\<open>#\<close> comments, cuts every other
  line at its first \<^verbatim>\<open>=\<close>, trims both sides and hands the pair to \<^verbatim>\<open>flag.Set\<close>. It
  returns at the first error. This theory embeds \<^verbatim>\<open>Load\<close> with the library functions
  it calls, and proves how it treats the lines of a file and the registry of flags.
\<close>

section \<open>Strings of the loader\<close>

text \<open>
  The configuration file is UTF-8 text. A Go string is modelled by the sequence of
  its code points (runes), which is what \<^verbatim>\<open>strings.TrimSpace\<close>, \<^verbatim>\<open>strings.HasPrefix\<close>
  and \<^verbatim>\<open>strings.Cut\<close> observe on valid UTF-8; byte lengths, which the line scanner
  counts, are recovered by \<open>byte_len\<close>. \<open>runes\<close> writes an ASCII literal as runes.
\<close>

type_synonym rune = nat
type_synonym gostring = "rune list"

definition runes :: "string \<Rightarrow> gostring" where
  "runes s = map of_char s"

text \<open>\<^verbatim>\<open>unicode.IsSpace\<close>: the Latin-1 cases and the White_Space table.\<close>

definition IsSpace :: "rune \<Rightarrow> bool" where
  "IsSpace r = (r \<in> {9, 10, 11, 12, 13, 32, 133, 160, 5760, 8232, 8233, 8239, 8287, 12288}
     \<or> (8192 \<le> r \<and> r \<le> 8202))"

text \<open>\<^verbatim>\<open>strings.TrimSpace\<close>: all leading and trailing white space removed.\<close>

definition TrimSpace :: "gostring \<Rightarrow> gostring" where
  "TrimSpace s = rev (dropWhile IsSpace (rev (dropWhile IsSpace s)))"

text \<open>\<^verbatim>\<open>strings.HasPrefix\<close>.\<close>

definition HasPrefix :: "gostring \<Rightarrow> gostring \<Rightarrow> bool" where
  "HasPrefix s p = (take (length p) s = p)"

text \<open>
  \<^verbatim>\<open>strings.Cut(s, sep)\<close> for a separator of one rune, as \<open>Load\<close> calls it: the text
  before the first occurrence, the text after it, and whether it occurs.
\<close>

definition Cut :: "gostring \<Rightarrow> rune \<Rightarrow> gostring \<times> gostring \<times> bool" where
  "Cut s sep =
     (if sep \<in> set s
      then (takeWhile (\<lambda>c. c \<noteq> sep) s, tl (dropWhile (\<lambda>c. c \<noteq> sep) s), True)
      else (s, [], False))"

abbreviation hash :: rune where "hash \<equiv> 35"
abbreviation equals :: rune where "equals \<equiv> 61"
abbreviation newline :: rune where "newline \<equiv> 10"
abbreviation carriage_return :: rune where "carriage_return \<equiv> 13"

section \<open>The line scanner\<close>

text \<open>
  \<open>Load\<close> reads the file through \<^verbatim>\<open>bufio.NewScanner(file)\<close>, whose default split
  function is \<^verbatim>\<open>bufio.ScanLines\<close> and whose buffer holds at most
  \<^verbatim>\<open>bufio.MaxScanTokenSize\<close> bytes. A file is the text it holds and the read error, if
  any, that the operating system reports once the text has been delivered.
\<close>

record config_file =
  data :: gostring
  fault :: "string option"

datatype scan_error = ErrTooLong | ReadFailed string

definition MaxScanTokenSize :: nat where
  "MaxScanTokenSize = 64 * 1024"

definition utf8_len :: "rune \<Rightarrow> nat" where
  "utf8_len r = (if r < 128 then 1 else if r < 2048 then 2 else if r < 65536 then 3 else 4)"

definition byte_len :: "gostring \<Rightarrow> nat" where
  "byte_len s = sum_list (map utf8_len s)"

text \<open>\<^verbatim>\<open>dropCR\<close> of package bufio: one trailing carriage return is removed.\<close>

definition dropCR :: "gostring \<Rightarrow> gostring" where
  "dropCR s = (if s \<noteq> [] \<and> last s = carriage_return then butlast s else s)"

text \<open>
  All the tokens that successive calls of \<^verbatim>\<open>scanner.Scan()\<close> deliver on the remaining
  text \<open>d\<close>, and the value of \<^verbatim>\<open>scanner.Err()\<close> once \<open>Scan\<close> has returned false. A
  line that does not fit the buffer stops the scan with \<open>ErrTooLong\<close>; a last line
  without a newline is delivered; an empty rest delivers nothing.
\<close>

function Scan :: "gostring \<Rightarrow> string option \<Rightarrow> gostring list \<times> scan_error option" where
  "Scan d flt =
     (if d = [] then ([], map_option ReadFailed flt)
      else
        let l = takeWhile (\<lambda>c. c \<noteq> newline) d in
        if MaxScanTokenSize \<le> byte_len l then ([], Some ErrTooLong)
        else if newline \<in> set d
        then (case Scan (tl (dropWhile (\<lambda>c. c \<noteq> newline) d)) flt of
                (ls, e) \<Rightarrow> (dropCR l # ls, e))
        else ([dropCR l], map_option ReadFailed flt))"
  by pat_completeness auto
termination
proof (relation "measure (\<lambda>(d, flt). length d)")
  show "wf (measure (\<lambda>(d, flt). length d))" by simp
next
  fix d :: gostring and flt :: "string option" and l :: gostring
  assume "d \<noteq> []" and "newline \<in> set d"
  have "length (dropWhile (\<lambda>c. c \<noteq> newline) d) \<le> length d"
    by (rule length_dropWhile_le)
  moreover have "dropWhile (\<lambda>c. c \<noteq> newline) d \<noteq> []"
    using \<open>newline \<in> set d\<close> by simp
  ultimately have "length (tl (dropWhile (\<lambda>c. c \<noteq> newline) d)) < length d"
    by (cases "dropWhile (\<lambda>c. c \<noteq> newline) d") simp_all
  then show "((tl (dropWhile (\<lambda>c. c \<noteq> newline) d), flt), (d, flt)) \<in> measure (\<lambda>(d, flt). length d)"
    by simp
qed

declare Scan.simps [simp del]

section \<open>The setting registry\<close>

text \<open>
  \<open>Load\<close> hands every pair to \<^verbatim>\<open>flag.Set(name, value)\<close> of the standard library,
  which is not part of this package. The loader below takes that operation as a
  parameter \<open>Set\<close>: given a name, a value and the registry, it yields an error or
  none, and the registry it leaves behind.
\<close>

text \<open>
  Modelled from the spec: the registry with its Set and Lookup operations, which the
  package takes from the standard flag package and which its source does not hold. A
  registry maps each declared name to a setting: the type-specific conversion of a
  text (\<open>None\<close> when the text is not valid for the type, otherwise the text of the
  converted value, as reading the setting back shows it) and the text of the current
  value. \<open>Set\<close> looks the name up, converts the value and makes the result the
  setting's current value; it fails if the name is unknown or the conversion fails.
  What a failing Set leaves behind is not said; here it changes nothing.
\<close>

record setting =
  convert :: "gostring \<Rightarrow> gostring option"
  current :: gostring

type_synonym registry = "gostring \<rightharpoonup> setting"

datatype registry_error = UnknownSetting gostring | InvalidValue gostring gostring

definition registry_Set ::
  "gostring \<Rightarrow> gostring \<Rightarrow> registry \<Rightarrow> registry_error option \<times> registry" where
  "registry_Set name val reg =
     (case reg name of
        None \<Rightarrow> (Some (UnknownSetting name), reg)
      | Some s \<Rightarrow>
          (case convert s val of
             None \<Rightarrow> (Some (InvalidValue name val), reg)
           | Some v \<Rightarrow> (None, reg(name \<mapsto> s\<lparr>current := v\<rparr>))))"

definition Lookup :: "gostring \<Rightarrow> registry \<Rightarrow> setting option" where
  "Lookup name reg = reg name"

text \<open>A setting of string type (\<^verbatim>\<open>flag.String\<close>): every text converts to itself.\<close>

definition string_setting :: "gostring \<Rightarrow> setting" where
  "string_setting dflt = \<lparr>convert = Some, current = dflt\<rparr>"

text \<open>
  A setting of boolean type (\<^verbatim>\<open>flag.Bool\<close>, as the package's example declares for
  \<^verbatim>\<open>debug\<close>): the standard library converts the text with \<^verbatim>\<open>strconv.ParseBool\<close> and
  shows the value read back with \<^verbatim>\<open>strconv.FormatBool\<close>.
\<close>

definition ParseBool :: "gostring \<Rightarrow> bool option" where
  "ParseBool s =
     (if s \<in> set (map runes [''1'', ''t'', ''T'', ''true'', ''TRUE'', ''True'']) then Some True
      else if s \<in> set (map runes [''0'', ''f'', ''F'', ''false'', ''FALSE'', ''False''])
      then Some False
      else None)"

definition FormatBool :: "bool \<Rightarrow> gostring" where
  "FormatBool b = (if b then runes ''true'' else runes ''false'')"

definition bool_setting :: "bool \<Rightarrow> setting" where
  "bool_setting dflt =
     \<lparr>convert = (\<lambda>s. map_option FormatBool (ParseBool s)), current = FormatBool dflt\<rparr>"


text \<open>
  The string flags that the package's test defines before it loads its files:
  \<^verbatim>\<open>key1\<close>, \<^verbatim>\<open>key2\<close> and \<^verbatim>\<open>key3\<close>, each with the empty string as default.
\<close>

definition test_flags :: registry where
  "test_flags =
     [runes ''key1'' \<mapsto> string_setting [], runes ''key2'' \<mapsto> string_setting [],
      runes ''key3'' \<mapsto> string_setting []]"

text \<open>A file system that holds one file; any other path fails to open.\<close>

definition one_file :: "string \<Rightarrow> config_file \<Rightarrow> string \<Rightarrow> string + config_file" where
  "one_file name f p = (if p = name then Inr f else Inl ''no such file or directory'')"

section \<open>Load\<close>

datatype 'e load_error =
    OpenFailed string string
  | SplitFailed gostring
  | SetFailed gostring gostring 'e
  | ScanFailed scan_error

text \<open>
  The loop body up to the call of \<^verbatim>\<open>flag.Set\<close>: the line is trimmed; an empty line
  or one that starts with \<^verbatim>\<open>#\<close> is skipped; otherwise it is cut at the first \<^verbatim>\<open>=\<close>,
  and both sides are trimmed.
\<close>

datatype parsed = Skip | NoSeparator gostring | Entry gostring gostring

definition parse_line :: "gostring \<Rightarrow> parsed" where
  "parse_line text =
     (let line = TrimSpace text in
      if line = [] \<or> HasPrefix line [hash] then Skip
      else
        (case Cut line equals of
           (name, val, found) \<Rightarrow>
             if \<not> found then NoSeparator line
             else Entry (TrimSpace name) (TrimSpace val)))"

text \<open>
  The scanning loop of \<open>Load\<close> over the lines the scanner delivers: the first error
  returns at once, with the registry as it is then.
\<close>

fun Load_loop ::
  "(gostring \<Rightarrow> gostring \<Rightarrow> 'r \<Rightarrow> 'e option \<times> 'r) \<Rightarrow> gostring list \<Rightarrow> 'r
     \<Rightarrow> 'e load_error option \<times> 'r" where
  "Load_loop Set [] reg = (None, reg)"
| "Load_loop Set (text # rest) reg =
     (case parse_line text of
        Skip \<Rightarrow> Load_loop Set rest reg
      | NoSeparator line \<Rightarrow> (Some (SplitFailed line), reg)
      | Entry name val \<Rightarrow>
          (case Set name val reg of
             (Some err, reg') \<Rightarrow> (Some (SetFailed name val err), reg')
           | (None, reg') \<Rightarrow> Load_loop Set rest reg'))"

text \<open>
  \<open>Load\<close>: the file system answers \<^verbatim>\<open>os.Open\<close> with an error or a file; the lines are
  scanned and applied in order; after the loop \<^verbatim>\<open>scanner.Err()\<close> is checked.
\<close>

definition Load ::
  "(gostring \<Rightarrow> gostring \<Rightarrow> 'r \<Rightarrow> 'e option \<times> 'r) \<Rightarrow> (string \<Rightarrow> string + config_file)
     \<Rightarrow> string \<Rightarrow> 'r \<Rightarrow> 'e load_error option \<times> 'r" where
  "Load Set fs configfile reg =
     (case fs configfile of
        Inl err \<Rightarrow> (Some (OpenFailed configfile err), reg)
      | Inr f \<Rightarrow>
          (case Scan (data f) (fault f) of
             (lines, serr) \<Rightarrow>
               (case Load_loop Set lines reg of
                  (Some e, reg') \<Rightarrow> (Some e, reg')
                | (None, reg') \<Rightarrow>
                    (case serr of
                       Some se \<Rightarrow> (Some (ScanFailed se), reg')
                     | None \<Rightarrow> (None, reg')))))"

section \<open>Trimming and cutting\<close>

lemma IsSpace_equals: "\<not> IsSpace equals"
  by (simp add: IsSpace_def)

lemma IsSpace_hash: "\<not> IsSpace hash"
  by (simp add: IsSpace_def)

lemma dropWhile_all: "\<forall>c\<in>set s. P c \<Longrightarrow> dropWhile P s = []"
  by (induction s) simp_all

lemma TrimSpace_all_space:
  assumes "\<forall>c\<in>set s. IsSpace c"
  shows "TrimSpace s = []"
proof -
  have "dropWhile IsSpace s = []" using assms by (rule dropWhile_all)
  then show ?thesis by (simp only: TrimSpace_def rev.simps dropWhile.simps)
qed

lemma TrimSpace_around:
  assumes "\<not> IsSpace c"
  shows "TrimSpace (a @ c # b) = dropWhile IsSpace a @ c # rev (dropWhile IsSpace (rev b))"
proof -
  have front: "dropWhile IsSpace (a @ c # b) = dropWhile IsSpace a @ c # b"
    using assms by (simp add: dropWhile_append)
  have rear: "dropWhile IsSpace (rev b @ c # rev (dropWhile IsSpace a))
      = dropWhile IsSpace (rev b) @ c # rev (dropWhile IsSpace a)"
    using assms by (simp add: dropWhile_append)
  show ?thesis
    by (simp add: TrimSpace_def front rear)
qed

lemma TrimSpace_ltrim: "TrimSpace (dropWhile IsSpace a) = TrimSpace a"
  by (simp add: TrimSpace_def)

lemma rtrim_ltrim:
  "dropWhile IsSpace (rev (dropWhile IsSpace (rev b))) = rev (dropWhile IsSpace (rev (dropWhile IsSpace b)))"
proof (cases "\<forall>c\<in>set b. IsSpace c")
  case True
  then have "dropWhile IsSpace b = []" and "dropWhile IsSpace (rev b) = []"
    by (simp_all only: dropWhile_all set_rev)
  then show ?thesis by (simp only: rev.simps dropWhile.simps)
next
  case False
  then obtain c where c: "c \<in> set b" "\<not> IsSpace c" by blast
  then obtain u w where b: "b = u @ c # w" by (meson split_list)
  have "TrimSpace b = dropWhile IsSpace u @ c # rev (dropWhile IsSpace (rev w))"
    unfolding b using c(2) by (rule TrimSpace_around)
  moreover have "rev (dropWhile IsSpace (rev b)) = u @ c # rev (dropWhile IsSpace (rev w))"
    unfolding b using c(2) by (simp add: dropWhile_append)
  then have "dropWhile IsSpace (rev (dropWhile IsSpace (rev b))) = dropWhile IsSpace u @ c # rev (dropWhile IsSpace (rev w))"
    using c(2) by (simp add: dropWhile_append)
  ultimately show ?thesis by (simp add: TrimSpace_def)
qed

lemma TrimSpace_rtrim: "TrimSpace (rev (dropWhile IsSpace (rev b))) = TrimSpace b"
proof -
  have "TrimSpace (rev (dropWhile IsSpace (rev b)))
      = rev (dropWhile IsSpace (rev (dropWhile IsSpace (rev (dropWhile IsSpace (rev b))))))"
    by (simp add: TrimSpace_def)
  also have "\<dots> = rev (dropWhile IsSpace (rev (rev (dropWhile IsSpace (rev (dropWhile IsSpace b))))))"
    by (simp only: rtrim_ltrim)
  also have "\<dots> = TrimSpace b"
    by (simp add: TrimSpace_def)
  finally show ?thesis .
qed

lemma Cut_first: "sep \<notin> set a \<Longrightarrow> Cut (a @ sep # b) sep = (a, b, True)"
  by (induction a) (simp_all add: Cut_def)


lemma parse_line_entry:
  assumes "equals \<notin> set a" and "\<not> HasPrefix (TrimSpace (a @ equals # b)) [hash]"
  shows "parse_line (a @ equals # b) = Entry (TrimSpace a) (TrimSpace b)"
proof -
  let ?a = "dropWhile IsSpace a" and ?b = "rev (dropWhile IsSpace (rev b))"
  have t: "TrimSpace (a @ equals # b) = ?a @ equals # ?b"
    by (rule TrimSpace_around [OF IsSpace_equals])
  have "equals \<notin> set ?a"
    using assms(1) by (auto dest: set_dropWhileD)
  then have "Cut (?a @ equals # ?b) equals = (?a, ?b, True)"
    by (rule Cut_first)
  then show ?thesis
    using assms(2) by (simp add: parse_line_def t TrimSpace_ltrim TrimSpace_rtrim)
qed

lemma TrimSpace_decomp:
  "\<exists>w1 w2. s = w1 @ TrimSpace s @ w2 \<and> (\<forall>c\<in>set (w1 @ w2). IsSpace c)"
proof -
  let ?t = "dropWhile IsSpace s"
  have "?t = rev (takeWhile IsSpace (rev ?t) @ dropWhile IsSpace (rev ?t))"
    by (simp only: takeWhile_dropWhile_id rev_rev_ident)
  then have "?t = TrimSpace s @ rev (takeWhile IsSpace (rev ?t))"
    by (simp only: rev_append TrimSpace_def)
  moreover have "s = takeWhile IsSpace s @ ?t" by simp
  ultimately have "s = takeWhile IsSpace s @ TrimSpace s @ rev (takeWhile IsSpace (rev ?t))"
    by simp
  moreover have "\<forall>c\<in>set (takeWhile IsSpace s @ rev (takeWhile IsSpace (rev ?t))). IsSpace c"
    by (auto dest: set_takeWhileD)
  ultimately show ?thesis by blast
qed

lemma TrimSpace_trimmed:
  assumes "\<forall>c\<in>set w1. IsSpace c" "\<forall>c\<in>set w2. IsSpace c"
    and "s = [] \<or> (\<not> IsSpace (hd s) \<and> \<not> IsSpace (last s))"
  shows "TrimSpace (w1 @ s @ w2) = s"
proof (cases "s = []")
  case True
  then show ?thesis using assms(1,2) by (auto intro!: TrimSpace_all_space)
next
  case False
  then obtain c t where s: "s = c # t" by (cases s) auto
  have c: "\<not> IsSpace c" using assms(3) s by simp
  have "dropWhile IsSpace (rev (t @ w2)) = rev t" 
  proof (cases "t = []")
    case True then show ?thesis using assms(2) by simp
  next
    case False
    then have "\<not> IsSpace (last t)" using assms(3) s by simp
    then have "dropWhile IsSpace (rev t) = rev t" using False by (simp add: dropWhile_eq_self_iff hd_rev)
    then show ?thesis using assms(2) False by (simp add: dropWhile_append)
  qed
  then show ?thesis
    using TrimSpace_around [OF c, of w1 "t @ w2"] assms(1) s by simp
qed

section \<open>The loop\<close>

lemma Load_loop_append_ok:
  "Load_loop Set pre reg = (None, reg1) \<Longrightarrow> Load_loop Set (pre @ post) reg = Load_loop Set post reg1"
proof (induction pre arbitrary: reg)
  case Nil
  then show ?case by simp
next
  case (Cons l pre)
  then show ?case
    by (cases "parse_line l") (auto split: prod.splits option.splits)
qed

lemma Load_loop_append_err:
  "fst (Load_loop Set pre reg) \<noteq> None \<Longrightarrow> Load_loop Set (pre @ post) reg = Load_loop Set pre reg"
proof (induction pre arbitrary: reg)
  case Nil
  then show ?case by simp
next
  case (Cons l pre)
  then show ?case
    by (cases "parse_line l") (auto split: prod.splits option.splits)
qed

section \<open>Properties of Load\<close>

text \<open>
  C3, first-separator split. A line that is not a comment and whose first \<^verbatim>\<open>=\<close>
  stands between the texts \<open>a\<close> and \<open>b\<close> is forwarded to the registry as the pair
  (\<open>a\<close> trimmed, \<open>b\<close> trimmed): the loop continues exactly as the registry's Set on
  that pair decides. The value is all of \<open>b\<close>, later \<^verbatim>\<open>=\<close> characters included, less
  the white space at its two ends.
\<close>

theorem first_separator_split:
  assumes "equals \<notin> set a" and "\<not> HasPrefix (TrimSpace (a @ equals # b)) [hash]"
  shows "Load_loop Set ((a @ equals # b) # rest) reg =
           (case Set (TrimSpace a) (TrimSpace b) reg of
              (Some err, reg') \<Rightarrow> (Some (SetFailed (TrimSpace a) (TrimSpace b) err), reg')
            | (None, reg') \<Rightarrow> Load_loop Set rest reg')
         \<and> (\<exists>w1 w2. b = w1 @ TrimSpace b @ w2 \<and> (\<forall>c\<in>set (w1 @ w2). IsSpace c))"
proof
  have "parse_line (a @ equals # b) = Entry (TrimSpace a) (TrimSpace b)"
    using assms by (rule parse_line_entry)
  then show "Load_loop Set ((a @ equals # b) # rest) reg =
           (case Set (TrimSpace a) (TrimSpace b) reg of
              (Some err, reg') \<Rightarrow> (Some (SetFailed (TrimSpace a) (TrimSpace b) err), reg')
            | (None, reg') \<Rightarrow> Load_loop Set rest reg')"
    by simp
  show "\<exists>w1 w2. b = w1 @ TrimSpace b @ w2 \<and> (\<forall>c\<in>set (w1 @ w2). IsSpace c)"
    by (rule TrimSpace_decomp)
qed

theorem first_separator_split_witness:
  "equals \<notin> set (runes ''url '')
   \<and> \<not> HasPrefix (TrimSpace (runes ''url '' @ equals # runes '' a=b=c '')) [hash]
   \<and> map_option current
        (snd (Load_loop registry_Set [runes ''url '' @ equals # runes '' a=b=c '']
               [runes ''url'' \<mapsto> string_setting []]) (runes ''url''))
      = Some (runes ''a=b=c'')"
  using first_separator_split [of "runes ''url ''" "runes '' a=b=c ''" registry_Set "[]"
      "[runes ''url'' \<mapsto> string_setting []]"]
  by (simp add: runes_def TrimSpace_def IsSpace_def HasPrefix_def registry_Set_def
      string_setting_def)

lemma parse_line_skip:
  assumes "case dropWhile IsSpace l of [] \<Rightarrow> True | c # _ \<Rightarrow> c = hash"
  shows "parse_line l = Skip"
proof (cases "dropWhile IsSpace l")
  case Nil
  then have "TrimSpace l = []" by (simp only: TrimSpace_def rev.simps dropWhile.simps)
  then show ?thesis by (simp add: parse_line_def)
next
  case (Cons c t)
  with assms have d: "dropWhile IsSpace l = hash # t" by simp
  have "dropWhile IsSpace (rev t @ [hash]) = dropWhile IsSpace (rev t) @ [hash]"
    using IsSpace_hash by (simp add: dropWhile_append)
  then have "TrimSpace l = hash # rev (dropWhile IsSpace (rev t))"
    by (simp add: TrimSpace_def d)
  then show ?thesis by (simp add: parse_line_def HasPrefix_def)
qed

lemma Load_loop_all_skip:
  "\<forall>l\<in>set ls. parse_line l = Skip \<Longrightarrow> Load_loop Set ls reg = (None, reg)"
  by (induction ls) simp_all

text \<open>
  C6, blank and comment lines are skipped. A line that is all white space, or whose
  first character after the leading white space is \<^verbatim>\<open>#\<close>, makes the loop go on to
  the next line with the registry untouched, whatever the registry's Set is. Hence,
  when the scanner reads the file to its end without an error and every line is of
  that kind, \<open>Load\<close> returns no error and leaves the registry as it was: Set is
  never called.
\<close>

theorem blank_and_comment_lines_skipped:
  "((case dropWhile IsSpace l of [] \<Rightarrow> True | c # _ \<Rightarrow> c = hash)
      \<longrightarrow> Load_loop Set (l # rest) reg = Load_loop Set rest reg)
   \<and> (fs path = Inr f \<and> Scan (data f) (fault f) = (ls, None)
        \<and> (\<forall>x\<in>set ls. case dropWhile IsSpace x of [] \<Rightarrow> True | c # _ \<Rightarrow> c = hash)
      \<longrightarrow> Load Set fs path reg = (None, reg))"
proof (intro conjI impI)
  assume "case dropWhile IsSpace l of [] \<Rightarrow> True | c # _ \<Rightarrow> c = hash"
  then have "parse_line l = Skip" by (rule parse_line_skip)
  then show "Load_loop Set (l # rest) reg = Load_loop Set rest reg" by simp
next
  assume a: "fs path = Inr f \<and> Scan (data f) (fault f) = (ls, None)
        \<and> (\<forall>x\<in>set ls. case dropWhile IsSpace x of [] \<Rightarrow> True | c # _ \<Rightarrow> c = hash)"
  then have "\<forall>x\<in>set ls. parse_line x = Skip" by (blast intro: parse_line_skip)
  then have "Load_loop Set ls reg = (None, reg)" by (rule Load_loop_all_skip)
  with a show "Load Set fs path reg = (None, reg)" by (simp add: Load_def)
qed

theorem blank_and_comment_lines_skipped_witness:
  "Scan ([newline, 9, 9] @ runes ''# Just a comment'' @ [newline, 9, 9]) None
     = ([[], [9, 9] @ runes ''# Just a comment'', [9, 9]], None)
   \<and> Load registry_Set
        (one_file ''test.conf''
           \<lparr>data = [newline, 9, 9] @ runes ''# Just a comment'' @ [newline, 9, 9], fault = None\<rparr>)
        ''test.conf'' test_flags = (None, test_flags)"
proof -
  have s: "Scan ([newline, 9, 9] @ runes ''# Just a comment'' @ [newline, 9, 9]) None
     = ([[], [9, 9] @ runes ''# Just a comment'', [9, 9]], None)"
    by (simp add: Scan.simps runes_def MaxScanTokenSize_def byte_len_def utf8_len_def dropCR_def)
  show ?thesis
    using blank_and_comment_lines_skipped [where l = "[]" and rest = "[]"
        and Set = registry_Set and reg = test_flags
        and fs = "one_file ''test.conf''
           \<lparr>data = [newline, 9, 9] @ runes ''# Just a comment'' @ [newline, 9, 9], fault = None\<rparr>"
        and path = "''test.conf''"
        and f = "\<lparr>data = [newline, 9, 9] @ runes ''# Just a comment'' @ [newline, 9, 9], fault = None\<rparr>"
        and ls = "[[], [9, 9] @ runes ''# Just a comment'', [9, 9]]"] s
    by (simp add: one_file_def runes_def IsSpace_def)
qed

text \<open>
  Without the condition on the scanner the claim fails: a file whose only line is
  a comment of 65536 bytes does not fit the scanner's buffer, and \<open>Load\<close> returns
  the scanner's error.
\<close>

lemma byte_len_replicate_hash: "byte_len (replicate n hash) = n"
  by (simp add: byte_len_def utf8_len_def sum_list_replicate)

theorem long_comment_line_counterexample:
  "(case dropWhile IsSpace (replicate 65536 hash) of [] \<Rightarrow> True | c # _ \<Rightarrow> c = hash)
   \<and> newline \<notin> set (replicate 65536 hash)
   \<and> Load registry_Set (one_file ''app.conf'' \<lparr>data = replicate 65536 hash, fault = None\<rparr>)
        ''app.conf'' test_flags = (Some (ScanFailed ErrTooLong), test_flags)"
proof -
  have r: "replicate 65536 hash = hash # replicate 65535 hash"
    by (simp add: replicate_Suc [symmetric] del: replicate_Suc)
  have "dropWhile IsSpace (replicate 65536 hash) = replicate 65536 hash"
    using IsSpace_hash by (simp only: dropWhile_replicate if_False)
  then have 1: "case dropWhile IsSpace (replicate 65536 hash) of [] \<Rightarrow> True | c # _ \<Rightarrow> c = hash"
    by (simp add: r)
  have 2: "newline \<notin> set (replicate 65536 hash)" by simp
  have t: "takeWhile (\<lambda>c. c \<noteq> newline) (replicate 65536 hash) = replicate 65536 hash"
    by (simp only: takeWhile_replicate) simp
  have "Scan (replicate 65536 hash) None = ([], Some ErrTooLong)"
    by (subst Scan.simps) (simp add: t byte_len_replicate_hash MaxScanTokenSize_def)
  then have 3: "Load registry_Set (one_file ''app.conf'' \<lparr>data = replicate 65536 hash, fault = None\<rparr>)
        ''app.conf'' test_flags = (Some (ScanFailed ErrTooLong), test_flags)"
    by (simp add: Load_def one_file_def)
  from 1 2 3 show ?thesis by blast
qed

lemma count_list_spaces:
  "\<forall>c\<in>set w. IsSpace c \<Longrightarrow> \<not> IsSpace x \<Longrightarrow> count_list w x = 0"
  by (induction w) auto

text \<open>
  C10, no inline comments. On a line that is not blank, does not start with \<^verbatim>\<open>#\<close>
  after trimming and holds a \<^verbatim>\<open>=\<close>, the name and the value forwarded to the registry
  are the line itself less white space at the ends of each side: the line is name,
  \<^verbatim>\<open>=\<close>, value with white space only around them. Every \<^verbatim>\<open>#\<close> of the line is thus
  in the name or in the value.
\<close>

theorem hash_inside_line_is_data:
  assumes "TrimSpace l \<noteq> []" and "\<not> HasPrefix (TrimSpace l) [hash]" and "equals \<in> set l"
  shows "\<exists>n v w1 w2 w3 w4.
           l = w1 @ n @ w2 @ equals # w3 @ v @ w4
           \<and> (\<forall>c\<in>set (w1 @ w2 @ w3 @ w4). IsSpace c)
           \<and> count_list (n @ v) hash = count_list l hash
           \<and> Load_loop Set (l # rest) reg =
               (case Set n v reg of
                  (Some err, reg') \<Rightarrow> (Some (SetFailed n v err), reg')
                | (None, reg') \<Rightarrow> Load_loop Set rest reg')"
proof -
  from assms(3) obtain a b where l: "l = a @ equals # b" and a: "equals \<notin> set a"
    by (meson split_list_first)
  obtain w1 w2 where da: "a = w1 @ TrimSpace a @ w2" and wa: "\<forall>c\<in>set (w1 @ w2). IsSpace c"
    using TrimSpace_decomp [of a] by blast
  obtain w3 w4 where db: "b = w3 @ TrimSpace b @ w4" and wb: "\<forall>c\<in>set (w3 @ w4). IsSpace c"
    using TrimSpace_decomp [of b] by blast
  let ?n = "TrimSpace a" and ?v = "TrimSpace b"
  have shape: "l = w1 @ ?n @ w2 @ equals # w3 @ ?v @ w4"
    using l da db by simp
  have ws: "\<forall>c\<in>set (w1 @ w2 @ w3 @ w4). IsSpace c"
    using wa wb by auto
  have z: "count_list w1 hash = 0" "count_list w2 hash = 0" "count_list w3 hash = 0"
      "count_list w4 hash = 0"
    using ws IsSpace_hash by (auto intro: count_list_spaces)
  have "count_list l hash = count_list (w1 @ ?n @ w2 @ equals # w3 @ ?v @ w4) hash"
    using shape by simp
  then have cnt: "count_list (?n @ ?v) hash = count_list l hash"
    using z by simp
  have "parse_line (a @ equals # b) = Entry ?n ?v"
    using a assms(2) unfolding l by (rule parse_line_entry)
  then have run: "Load_loop Set (l # rest) reg =
               (case Set ?n ?v reg of
                  (Some err, reg') \<Rightarrow> (Some (SetFailed ?n ?v err), reg')
                | (None, reg') \<Rightarrow> Load_loop Set rest reg')"
    by (simp add: l)
  from shape ws cnt run show ?thesis by blast
qed

theorem hash_inside_line_is_data_witness:
  "TrimSpace (runes ''key1 = value # comment'') \<noteq> []
   \<and> \<not> HasPrefix (TrimSpace (runes ''key1 = value # comment'')) [hash]
   \<and> equals \<in> set (runes ''key1 = value # comment'')
   \<and> map_option current
        (Lookup (runes ''key1'')
           (snd (Load_loop registry_Set [runes ''key1 = value # comment''] test_flags)))
      = Some (runes ''value # comment'')"
  using hash_inside_line_is_data [of "runes ''key1 = value # comment''" registry_Set "[]" test_flags]
  by (simp add: runes_def TrimSpace_def IsSpace_def HasPrefix_def parse_line_def Cut_def
      registry_Set_def Lookup_def test_flags_def string_setting_def)

lemma parse_line_padded:
  assumes ws: "\<forall>c\<in>set (w1 @ w2 @ w3 @ w4). IsSpace c"
    and eq: "equals \<notin> set name"
    and name: "name = [] \<or> (\<not> IsSpace (hd name) \<and> \<not> IsSpace (last name) \<and> hd name \<noteq> hash)"
    and val: "val = [] \<or> (\<not> IsSpace (hd val) \<and> \<not> IsSpace (last val))"
  shows "parse_line (w1 @ name @ w2 @ equals # w3 @ val @ w4) = Entry name val"
proof -
  let ?a = "w1 @ name @ w2" and ?b = "w3 @ val @ w4"
  have sp: "\<forall>c\<in>set w1. IsSpace c" "\<forall>c\<in>set w2. IsSpace c" "\<forall>c\<in>set w3. IsSpace c"
      "\<forall>c\<in>set w4. IsSpace c"
    using ws by auto
  have "equals \<notin> set w1" "equals \<notin> set w2"
    using sp IsSpace_equals by auto
  then have a: "equals \<notin> set ?a" using eq by simp
  have ta: "TrimSpace ?a = name"
    using sp(1,2) name by (intro TrimSpace_trimmed) auto
  have tb: "TrimSpace ?b = val"
    using sp(3,4) val by (rule TrimSpace_trimmed)
  have "TrimSpace (?a @ equals # ?b) = dropWhile IsSpace ?a @ equals # rev (dropWhile IsSpace (rev ?b))"
    by (rule TrimSpace_around [OF IsSpace_equals])
  moreover have "hd (dropWhile IsSpace ?a @ equals # rev (dropWhile IsSpace (rev ?b))) \<noteq> hash"
  proof (cases "name = []")
    case True
    then have "\<forall>c\<in>set ?a. IsSpace c" using sp(1,2) by auto
    then have "dropWhile IsSpace ?a = []" by (rule dropWhile_all)
    then show ?thesis by (simp only: append_Nil list.sel)
  next
    case False
    then obtain c t where n: "name = c # t" by (cases name) auto
    with name have "\<not> IsSpace c" "c \<noteq> hash" by auto
    then have "dropWhile IsSpace ?a = c # t @ w2"
      using sp(1) n by (simp add: dropWhile_append)
    then show ?thesis using \<open>c \<noteq> hash\<close> by simp
  qed
  ultimately have "\<not> HasPrefix (TrimSpace (?a @ equals # ?b)) [hash]"
    by (cases "dropWhile IsSpace ?a") (auto simp: HasPrefix_def)
  with a have "parse_line (?a @ equals # ?b) = Entry (TrimSpace ?a) (TrimSpace ?b)"
    by (rule parse_line_entry)
  then show ?thesis by (simp add: ta tb)
qed

text \<open>
  C2, trimming. A line made of a name and a value with white space before, between
  and after them and \<^verbatim>\<open>=\<close> in the middle, where the name holds no \<^verbatim>\<open>=\<close>, does not
  start with \<^verbatim>\<open>#\<close>, and neither name nor value starts or ends with white space, is
  forwarded to the registry's Set as exactly that name and that value. Reading the
  setting back after a successful Set gives the text of the value as the setting's
  type converted it; that is the trimmed value itself whenever the conversion keeps
  the text, as every setting of string type does.
\<close>

theorem trimmed_pair_forwarded:
  assumes "\<forall>c\<in>set (w1 @ w2 @ w3 @ w4). IsSpace c"
    and "equals \<notin> set name"
    and "name = [] \<or> (\<not> IsSpace (hd name) \<and> \<not> IsSpace (last name) \<and> hd name \<noteq> hash)"
    and "val = [] \<or> (\<not> IsSpace (hd val) \<and> \<not> IsSpace (last val))"
  shows "Load_loop Set ((w1 @ name @ w2 @ equals # w3 @ val @ w4) # rest) reg =
           (case Set name val reg of
              (Some err, reg') \<Rightarrow> (Some (SetFailed name val err), reg')
            | (None, reg') \<Rightarrow> Load_loop Set rest reg')
         \<and> (\<forall>s v. flags name = Some s \<and> convert s val = Some v \<longrightarrow>
              fst (registry_Set name val flags) = None
              \<and> map_option current (Lookup name (snd (registry_Set name val flags))) = Some v)
         \<and> convert (string_setting dflt) val = Some val"
proof (intro conjI allI impI)
  have "parse_line (w1 @ name @ w2 @ equals # w3 @ val @ w4) = Entry name val"
    using assms by (rule parse_line_padded)
  then show "Load_loop Set ((w1 @ name @ w2 @ equals # w3 @ val @ w4) # rest) reg =
           (case Set name val reg of
              (Some err, reg') \<Rightarrow> (Some (SetFailed name val err), reg')
            | (None, reg') \<Rightarrow> Load_loop Set rest reg')"
    by simp
next
  fix s v
  assume "flags name = Some s \<and> convert s val = Some v"
  then show "fst (registry_Set name val flags) = None"
    and "map_option current (Lookup name (snd (registry_Set name val flags))) = Some v"
    by (simp_all add: registry_Set_def Lookup_def)
next
  show "convert (string_setting dflt) val = Some val"
    by (simp add: string_setting_def)
qed

theorem trimmed_pair_forwarded_witness:
  "Load_loop registry_Set
     [[9, 9, 32, 32] @ runes ''key1'' @ runes ''    '' @ equals # runes ''    '' @ runes ''value1''
        @ runes ''    '']
     test_flags
     = (None, test_flags(runes ''key1'' \<mapsto> string_setting (runes ''value1'')))
   \<and> map_option current
        (Lookup (runes ''key1'') (snd (registry_Set (runes ''key1'') (runes ''value1'') test_flags)))
      = Some (runes ''value1'')"
  using trimmed_pair_forwarded [where ?w1.0 = "[9, 9, 32, 32]" and name = "runes ''key1''"
      and ?w2.0 = "runes ''    ''" and ?w3.0 = "runes ''    ''" and val = "runes ''value1''"
      and ?w4.0 = "runes ''    ''" and Set = registry_Set and rest = "[]" and reg = test_flags
      and flags = test_flags and dflt = "[]"]
  by (simp add: runes_def IsSpace_def registry_Set_def Lookup_def test_flags_def string_setting_def)

text \<open>
  As stated for every setting, the read-back half of the claim fails: the line
  \<^verbatim>\<open>debug = 1\<close> sets a boolean setting \<^verbatim>\<open>debug\<close>, and reading it back gives \<^verbatim>\<open>true\<close>.
\<close>

theorem bool_read_back_counterexample:
  "runes ''debug = 1'' = [] @ runes ''debug'' @ [32] @ equals # [32] @ runes ''1'' @ []
   \<and> fst (Load_loop registry_Set [runes ''debug = 1''] [runes ''debug'' \<mapsto> bool_setting False])
      = None
   \<and> map_option current
        (Lookup (runes ''debug'')
           (snd (Load_loop registry_Set [runes ''debug = 1'']
                  [runes ''debug'' \<mapsto> bool_setting False])))
      = Some (runes ''true'')
   \<and> runes ''true'' \<noteq> runes ''1''"
  by (simp add: runes_def TrimSpace_def IsSpace_def HasPrefix_def parse_line_def Cut_def
      registry_Set_def Lookup_def bool_setting_def ParseBool_def FormatBool_def)





text \<open>
  C7, an empty value is valid. On a line that is not a comment and whose text after
  the first \<^verbatim>\<open>=\<close> is white space only, the pair forwarded to Set is the trimmed name
  and the empty string. When the name is registered and its setting accepts the
  empty string, the line is no error: the loop goes on with that setting's current
  value set to the empty string.
\<close>

theorem empty_value_is_valid:
  assumes "equals \<notin> set a" and "\<not> HasPrefix (TrimSpace (a @ equals # b)) [hash]"
    and "\<forall>c\<in>set b. IsSpace c"
    and "flags (TrimSpace a) = Some s" and "convert s [] = Some []"
  shows "Load_loop Set ((a @ equals # b) # rest) reg =
           (case Set (TrimSpace a) [] reg of
              (Some err, reg') \<Rightarrow> (Some (SetFailed (TrimSpace a) [] err), reg')
            | (None, reg') \<Rightarrow> Load_loop Set rest reg')
         \<and> Load_loop registry_Set ((a @ equals # b) # rest) flags =
             Load_loop registry_Set rest (flags(TrimSpace a \<mapsto> s\<lparr>current := []\<rparr>))"
proof -
  have "TrimSpace b = []"
    using assms(3) by (rule TrimSpace_all_space)
  then have p: "parse_line (a @ equals # b) = Entry (TrimSpace a) []"
    using parse_line_entry [OF assms(1,2)] by simp
  have "registry_Set (TrimSpace a) [] flags = (None, flags(TrimSpace a \<mapsto> s\<lparr>current := []\<rparr>))"
    using assms(4,5) by (simp add: registry_Set_def)
  with p show ?thesis by simp
qed

theorem empty_value_is_valid_witness:
  "equals \<notin> set (runes ''key1 '')
   \<and> \<not> HasPrefix (TrimSpace (runes ''key1 '' @ equals # runes '' '')) [hash]
   \<and> Load_loop registry_Set
        [runes ''key1 '' @ equals # runes '' '', runes ''key2 = value2'']
        (test_flags(runes ''key1'' \<mapsto> string_setting (runes ''old'')))
      = (None, test_flags(runes ''key1'' \<mapsto> string_setting [],
                         runes ''key2'' \<mapsto> string_setting (runes ''value2'')))"
proof -
  let ?r = "test_flags(runes ''key1'' \<mapsto> string_setting (runes ''old''))"
  have 1: "equals \<notin> set (runes ''key1 '')" by (simp add: runes_def)
  have 2: "\<not> HasPrefix (TrimSpace (runes ''key1 '' @ equals # runes '' '')) [hash]"
    by (simp add: runes_def TrimSpace_def IsSpace_def HasPrefix_def)
  have 3: "\<forall>c\<in>set (runes '' ''). IsSpace c" by (simp add: runes_def IsSpace_def)
  have t: "TrimSpace (runes ''key1 '') = runes ''key1''"
    by (simp add: runes_def TrimSpace_def IsSpace_def)
  have 4: "?r (TrimSpace (runes ''key1 '')) = Some (string_setting (runes ''old''))"
    by (simp add: t)
  have 5: "convert (string_setting (runes ''old'')) [] = Some []"
    by (simp add: string_setting_def)
  note r = empty_value_is_valid [where Set = registry_Set and rest = "[runes ''key2 = value2'']"
      and reg = ?r and flags = ?r and a = "runes ''key1 ''" and b = "runes '' ''"
      and s = "string_setting (runes ''old'')", OF 1 2 3 4 5, THEN conjunct2]
  have "Load_loop registry_Set [runes ''key2 = value2'']
          (?r(TrimSpace (runes ''key1 '') \<mapsto> string_setting (runes ''old'')\<lparr>current := []\<rparr>))
        = (None, test_flags(runes ''key1'' \<mapsto> string_setting [],
                         runes ''key2'' \<mapsto> string_setting (runes ''value2'')))"
    by (simp add: t runes_def TrimSpace_def IsSpace_def HasPrefix_def parse_line_def Cut_def
        registry_Set_def test_flags_def string_setting_def)
  with r 1 2 show ?thesis by simp
qed

lemma registry_Set_undeclared:
  "reg k = None \<Longrightarrow> snd (registry_Set name val reg) k = None"
  by (auto simp: registry_Set_def split: option.splits)

lemma registry_Set_unknown: "reg name = None \<Longrightarrow> fst (registry_Set name val reg) \<noteq> None"
  by (simp add: registry_Set_def)

lemma Load_loop_unknown_name:
  assumes "flags k = None" and "l \<in> set ls" and "parse_line l = Entry k v"
  shows "fst (Load_loop registry_Set ls flags) \<noteq> None"
  using assms
proof (induction ls arbitrary: flags)
  case Nil
  then show ?case by simp
next
  case (Cons x xs)
  show ?case
  proof (cases "parse_line x")
    case Skip
    with Cons have "l \<in> set xs" by auto
    with Cons Skip show ?thesis by simp
  next
    case (NoSeparator line)
    then show ?thesis by simp
  next
    case (Entry n w)
    show ?thesis
    proof (cases "fst (registry_Set n w flags)")
      case (Some e)
      with Entry show ?thesis by (cases "registry_Set n w flags") simp
    next
      case None
      then have "n \<noteq> k" using Cons.prems(1) registry_Set_unknown by blast
      with Entry Cons.prems have "l \<in> set xs" by auto
      moreover have "snd (registry_Set n w flags) k = None"
        using Cons.prems(1) by (rule registry_Set_undeclared)
      ultimately have "fst (Load_loop registry_Set xs (snd (registry_Set n w flags))) \<noteq> None"
        using Cons.IH Cons.prems(3) by blast
      with Entry None show ?thesis by (cases "registry_Set n w flags") simp
    qed
  qed
qed

lemma Load_error_of_loop:
  "fs path = Inr f \<Longrightarrow> Scan (data f) (fault f) = (ls, serr)
     \<Longrightarrow> fst (Load_loop Set ls reg) \<noteq> None \<Longrightarrow> fst (Load Set fs path reg) \<noteq> None"
  by (cases "Load_loop Set ls reg") (auto simp: Load_def)

text \<open>
  C8, an empty name is rejected. The name of a line that starts, after white space,
  with \<^verbatim>\<open>=\<close> is the empty string, and that is what the registry's Set receives. When
  no setting is registered under the empty name, \<open>Load\<close> returns an error for every
  file in which the scanner delivers such a line.
\<close>

theorem empty_name_is_rejected:
  assumes "flags [] = None"
    and "fs path = Inr f" and "Scan (data f) (fault f) = (ls, serr)"
    and "w @ equals # b \<in> set ls" and "\<forall>c\<in>set w. IsSpace c"
  shows "fst (Load registry_Set fs path flags) \<noteq> None
         \<and> parse_line (w @ equals # b) = Entry [] (TrimSpace b)"
proof -
  have "equals \<notin> set w"
    using assms(5) IsSpace_equals by auto
  moreover have "TrimSpace (w @ equals # b) = dropWhile IsSpace w @ equals # rev (dropWhile IsSpace (rev b))"
    by (rule TrimSpace_around [OF IsSpace_equals])
  then have "\<not> HasPrefix (TrimSpace (w @ equals # b)) [hash]"
    by (simp add: dropWhile_all [OF assms(5)] HasPrefix_def)
  ultimately have "parse_line (w @ equals # b) = Entry (TrimSpace w) (TrimSpace b)"
    by (rule parse_line_entry)
  then have p: "parse_line (w @ equals # b) = Entry [] (TrimSpace b)"
    by (simp add: TrimSpace_all_space [OF assms(5)])
  have "fst (Load_loop registry_Set ls flags) \<noteq> None"
    using assms(1,4) p by (rule Load_loop_unknown_name)
  with assms(2,3) have "fst (Load registry_Set fs path flags) \<noteq> None"
    by (rule Load_error_of_loop)
  with p show ?thesis by simp
qed

theorem empty_name_is_rejected_witness:
  "test_flags [] = None
   \<and> Scan ([newline, 9] @ runes ''= value1'' @ [newline, 9] @ runes ''key2 = value2'' @ [newline]) None
      = ([[], [9] @ equals # runes '' value1'', 9 # runes ''key2 = value2''], None)
   \<and> fst (Load registry_Set
        (one_file ''test.conf''
          \<lparr>data = [newline, 9] @ runes ''= value1'' @ [newline, 9] @ runes ''key2 = value2''
                    @ [newline],
           fault = None\<rparr>)
        ''test.conf'' test_flags)
      = Some (SetFailed [] (runes ''value1'') (UnknownSetting []))"
proof -
  let ?d = "[newline, 9] @ runes ''= value1'' @ [newline, 9] @ runes ''key2 = value2'' @ [newline]"
  let ?ls = "[[], [9] @ equals # runes '' value1'', 9 # runes ''key2 = value2'']"
  have 1: "test_flags [] = None" by (simp add: test_flags_def runes_def)
  have s: "Scan ?d None = (?ls, None)"
    by (simp add: Scan.simps runes_def MaxScanTokenSize_def byte_len_def utf8_len_def dropCR_def)
  have 2: "one_file ''test.conf'' \<lparr>data = ?d, fault = None\<rparr> ''test.conf''
      = Inr \<lparr>data = ?d, fault = None\<rparr>"
    by (simp add: one_file_def)
  have 3: "Scan (data \<lparr>data = ?d, fault = None\<rparr>) (fault \<lparr>data = ?d, fault = None\<rparr>) = (?ls, None)"
    using s by simp
  have 4: "[9] @ equals # runes '' value1'' \<in> set ?ls" by simp
  have 5: "\<forall>c\<in>set [9]. IsSpace c" by (simp add: IsSpace_def)
  note r = empty_name_is_rejected [where flags = test_flags
      and fs = "one_file ''test.conf'' \<lparr>data = ?d, fault = None\<rparr>" and path = "''test.conf''"
      and f = "\<lparr>data = ?d, fault = None\<rparr>" and ls = ?ls and serr = None
      and w = "[9]" and b = "runes '' value1''", OF 1 2 3 4 5]
  have "Load_loop registry_Set ?ls test_flags
      = (Some (SetFailed [] (runes ''value1'') (UnknownSetting [])), test_flags)"
    using r 1 by (simp add: runes_def TrimSpace_def IsSpace_def HasPrefix_def parse_line_def
        registry_Set_def)
  then have "fst (Load registry_Set (one_file ''test.conf'' \<lparr>data = ?d, fault = None\<rparr>)
        ''test.conf'' test_flags) = Some (SetFailed [] (runes ''value1'') (UnknownSetting []))"
    using 2 3 by (simp add: Load_def)
  with 1 s show ?thesis by simp
qed

lemma registry_Set_other: "k \<noteq> name \<Longrightarrow> snd (registry_Set name val reg) k = reg k"
  by (auto simp: registry_Set_def split: option.splits)

lemma registry_Set_convert:
  "map_option convert (snd (registry_Set name val reg) k) = map_option convert (reg k)"
  by (auto simp: registry_Set_def split: option.splits)

lemma Load_loop_frame:
  "\<forall>l\<in>set ls. \<forall>v. parse_line l \<noteq> Entry k v
     \<Longrightarrow> snd (Load_loop registry_Set ls flags) k = flags k"
proof (induction ls arbitrary: flags)
  case Nil
  then show ?case by simp
next
  case (Cons x xs)
  show ?case
  proof (cases "parse_line x")
    case Skip
    with Cons show ?thesis by simp
  next
    case (NoSeparator line)
    then show ?thesis by simp
  next
    case (Entry n w)
    with Cons.prems have nk: "k \<noteq> n" by auto
    obtain e r where s: "registry_Set n w flags = (e, r)" by (cases "registry_Set n w flags")
    then have r: "r k = flags k"
      using registry_Set_other [OF nk, of w flags] by simp
    show ?thesis
    proof (cases e)
      case None
      have "snd (Load_loop registry_Set xs r) k = r k"
        using Cons.IH Cons.prems by simp
      with Entry s None r show ?thesis by simp
    next
      case (Some err)
      with Entry s r show ?thesis by simp
    qed
  qed
qed

lemma Load_loop_convert:
  "map_option convert (snd (Load_loop registry_Set ls flags) k) = map_option convert (flags k)"
proof (induction ls arbitrary: flags)
  case Nil
  then show ?case by simp
next
  case (Cons x xs)
  show ?case
  proof (cases "parse_line x")
    case Skip
    with Cons show ?thesis by simp
  next
    case (NoSeparator line)
    then show ?thesis by simp
  next
    case (Entry n w)
    obtain e r where s: "registry_Set n w flags = (e, r)" by (cases "registry_Set n w flags")
    then have r: "map_option convert (r k) = map_option convert (flags k)"
      using registry_Set_convert [of n w flags k] by simp
    show ?thesis
    proof (cases e)
      case None
      with Entry s r Cons.IH [of r] show ?thesis by simp
    next
      case (Some err)
      with Entry s r show ?thesis by simp
    qed
  qed
qed

lemma Load_state: 
  "fs path = Inr f \<Longrightarrow> Scan (data f) (fault f) = (ls, serr)
     \<Longrightarrow> snd (Load Set fs path reg) = snd (Load_loop Set ls reg)"
  by (cases "Load_loop Set ls reg") (auto simp: Load_def split: option.splits)

text \<open>
  C9, frame. A setting whose name is the name of no entry line that the scanner
  delivers is, after \<open>Load\<close>, what it was before, whether \<open>Load\<close> fails or not.
\<close>

theorem settings_not_named_unchanged:
  assumes "fs path = Inr f" and "Scan (data f) (fault f) = (ls, serr)"
    and "\<forall>l\<in>set ls. \<forall>v. parse_line l \<noteq> Entry k v"
  shows "Lookup k (snd (Load registry_Set fs path flags)) = Lookup k flags"
proof -
  have "snd (Load registry_Set fs path flags) = snd (Load_loop registry_Set ls flags)"
    using assms(1,2) by (rule Load_state)
  then show ?thesis
    using Load_loop_frame [OF assms(3)] by (simp add: Lookup_def)
qed

theorem settings_not_named_unchanged_witness:
  "Scan (runes ''db-url = example.com:5432'' @ newline # runes ''debug = true'' @ [newline]) None
     = ([runes ''db-url = example.com:5432'', runes ''debug = true''], None)
   \<and> map_option current
        (Lookup (runes ''server-host'')
          (snd (Load registry_Set
                 (one_file ''app.conf''
                    \<lparr>data = runes ''db-url = example.com:5432'' @ newline # runes ''debug = true''
                              @ [newline],
                     fault = None\<rparr>)
                 ''app.conf''
                 [runes ''db-url'' \<mapsto> string_setting (runes ''localhost:5432''),
                  runes ''server-host'' \<mapsto> string_setting (runes ''localhost''),
                  runes ''debug'' \<mapsto> bool_setting False])))
      = Some (runes ''localhost'')"
proof -
  let ?d = "runes ''db-url = example.com:5432'' @ newline # runes ''debug = true'' @ [newline]"
  let ?ls = "[runes ''db-url = example.com:5432'', runes ''debug = true'']"
  let ?flags = "[runes ''db-url'' \<mapsto> string_setting (runes ''localhost:5432''),
                  runes ''server-host'' \<mapsto> string_setting (runes ''localhost''),
                  runes ''debug'' \<mapsto> bool_setting False]"
  have s: "Scan ?d None = (?ls, None)"
    by (simp add: Scan.simps runes_def MaxScanTokenSize_def byte_len_def utf8_len_def dropCR_def)
  have 1: "one_file ''app.conf'' \<lparr>data = ?d, fault = None\<rparr> ''app.conf''
      = Inr \<lparr>data = ?d, fault = None\<rparr>"
    by (simp add: one_file_def)
  have 2: "Scan (data \<lparr>data = ?d, fault = None\<rparr>) (fault \<lparr>data = ?d, fault = None\<rparr>) = (?ls, None)"
    using s by simp
  have 3: "\<forall>l\<in>set ?ls. \<forall>v. parse_line l \<noteq> Entry (runes ''server-host'') v"
    by (simp add: runes_def TrimSpace_def IsSpace_def HasPrefix_def parse_line_def Cut_def)
  note r = settings_not_named_unchanged [where flags = ?flags
      and fs = "one_file ''app.conf'' \<lparr>data = ?d, fault = None\<rparr>" and path = "''app.conf''"
      and f = "\<lparr>data = ?d, fault = None\<rparr>" and ls = ?ls and serr = None
      and k = "runes ''server-host''", OF 1 2 3]
  have "map_option current (Lookup (runes ''server-host'') ?flags) = Some (runes ''localhost'')"
    by (simp add: Lookup_def runes_def string_setting_def)
  with r s show ?thesis by simp
qed

lemma Load_loop_prefix_ok:
  assumes "Load_loop Set (pre @ post) reg = (None, reg')"
  shows "\<exists>reg1. Load_loop Set pre reg = (None, reg1) \<and> Load_loop Set post reg1 = (None, reg')"
proof (cases "fst (Load_loop Set pre reg)")
  case None
  then obtain reg1 where p: "Load_loop Set pre reg = (None, reg1)"
    by (cases "Load_loop Set pre reg") simp
  then show ?thesis
    using assms Load_loop_append_ok [OF p, of post] by simp
next
  case (Some e)
  then have "Load_loop Set (pre @ post) reg = Load_loop Set pre reg"
    by (simp add: Load_loop_append_err)
  with assms Some show ?thesis by simp
qed

lemma Load_loop_each_ok:
  "\<forall>x\<in>set ls. fst (Load_loop registry_Set [x] flags) = None
     \<Longrightarrow> fst (Load_loop registry_Set ls flags) = None"
proof (induction ls arbitrary: flags)
  case Nil
  then show ?case by simp
next
  case (Cons x xs)
  show ?case
  proof (cases "parse_line x")
    case Skip
    with Cons show ?thesis by simp
  next
    case (NoSeparator line)
    with Cons.prems show ?thesis by simp
  next
    case (Entry n w)
    obtain e r where s: "registry_Set n w flags = (e, r)" by (cases "registry_Set n w flags")
    with Entry Cons.prems have e: "e = None" by (cases e) auto
    have "\<forall>y\<in>set xs. fst (Load_loop registry_Set [y] r) = None"
    proof
      fix y assume y: "y \<in> set xs"
      with Cons.prems have ok: "fst (Load_loop registry_Set [y] flags) = None" by simp
      show "fst (Load_loop registry_Set [y] r) = None"
      proof (cases "parse_line y")
        case (Entry m u)
        have c: "map_option convert (r m) = map_option convert (flags m)"
          using registry_Set_convert [of n w flags m] s by simp
        from ok Entry have "fst (registry_Set m u flags) = None"
          by (cases "registry_Set m u flags") (auto split: option.splits)
        then obtain sm cm where "flags m = Some sm" "convert sm u = Some cm"
          by (auto simp: registry_Set_def split: option.splits)
        with c obtain sr where "r m = Some sr" "convert sr u = Some cm" by auto
        then have "fst (registry_Set m u r) = None" by (simp add: registry_Set_def)
        with Entry show ?thesis by (cases "registry_Set m u r") auto
      qed (use ok in simp_all)
    qed
    then have "fst (Load_loop registry_Set xs r) = None" by (rule Cons.IH)
    with Entry s e show ?thesis by simp
  qed
qed

text \<open>
  C4, the last write wins. When \<open>Load\<close> succeeds and \<open>l\<close> is the last line the scanner
  delivers that is an entry for the name \<open>k\<close>, the setting \<open>k\<close> holds the value of
  \<open>l\<close>, as the setting's type converts it, whatever earlier lines assigned to \<open>k\<close>.
  Assigning a name again is not an error: lines that are each processed without
  error on their own are processed without error together.
\<close>

theorem last_write_wins:
  assumes "fs path = Inr f" and "Scan (data f) (fault f) = (pre @ l # post, serr)"
    and "Load registry_Set fs path flags = (None, flags')"
    and "parse_line l = Entry k v"
    and "\<forall>x\<in>set post. \<forall>v'. parse_line x \<noteq> Entry k v'"
  shows "(\<exists>s c. flags k = Some s \<and> convert s v = Some c \<and> flags' k = Some (s\<lparr>current := c\<rparr>))
         \<and> ((\<forall>x\<in>set ls. fst (Load_loop registry_Set [x] flags) = None)
              \<longrightarrow> fst (Load_loop registry_Set ls flags) = None)"
proof
  have whole: "Load_loop registry_Set (pre @ l # post) flags = (None, flags')"
    using assms(1,2,3)
    by (cases "Load_loop registry_Set (pre @ l # post) flags")
      (auto simp: Load_def split: option.splits)
  obtain r1 where p: "Load_loop registry_Set pre flags = (None, r1)"
    and q: "Load_loop registry_Set (l # post) r1 = (None, flags')"
    using Load_loop_prefix_ok [OF whole] by auto
  obtain e r2 where s: "registry_Set k v r1 = (e, r2)" by (cases "registry_Set k v r1")
  with q assms(4) have e: "e = None" and t: "Load_loop registry_Set post r2 = (None, flags')"
    by (cases e; simp)+
  from s e obtain s1 c where s1: "r1 k = Some s1" "convert s1 v = Some c"
    and r2: "r2 = r1(k \<mapsto> s1\<lparr>current := c\<rparr>)"
    by (auto simp: registry_Set_def split: option.splits)
  have "snd (Load_loop registry_Set post r2) k = r2 k"
    using assms(5) by (rule Load_loop_frame)
  with t r2 have f: "flags' k = Some (s1\<lparr>current := c\<rparr>)" by simp
  have "map_option convert (r1 k) = map_option convert (flags k)"
    using Load_loop_convert [of pre flags k] p by simp
  with s1 obtain s0 where s0: "flags k = Some s0" "convert s0 = convert s1"
    by (cases "flags k") auto
  then have "s0\<lparr>current := c\<rparr> = s1\<lparr>current := c\<rparr>" by (cases s0, cases s1) simp
  with s0 s1 f show "\<exists>s c. flags k = Some s \<and> convert s v = Some c \<and> flags' k = Some (s\<lparr>current := c\<rparr>)"
    by simp
next
  show "(\<forall>x\<in>set ls. fst (Load_loop registry_Set [x] flags) = None)
          \<longrightarrow> fst (Load_loop registry_Set ls flags) = None"
    using Load_loop_each_ok by blast
qed

theorem last_write_wins_witness:
  "Scan (runes ''key1 = value1'' @ newline # runes ''key1 = value2'' @ newline
           # runes ''key1 = value3'' @ [newline]) None
     = ([runes ''key1 = value1'', runes ''key1 = value2''] @ runes ''key1 = value3'' # [], None)
   \<and> Load registry_Set
        (one_file ''test.conf''
           \<lparr>data = runes ''key1 = value1'' @ newline # runes ''key1 = value2'' @ newline
                     # runes ''key1 = value3'' @ [newline],
            fault = None\<rparr>)
        ''test.conf'' test_flags
      = (None, test_flags(runes ''key1'' \<mapsto> string_setting (runes ''value3'')))
   \<and> map_option current
        (Lookup (runes ''key1'') (test_flags(runes ''key1'' \<mapsto> string_setting (runes ''value3''))))
      = Some (runes ''value3'')"
proof -
  let ?d = "runes ''key1 = value1'' @ newline # runes ''key1 = value2'' @ newline
              # runes ''key1 = value3'' @ [newline]"
  let ?pre = "[runes ''key1 = value1'', runes ''key1 = value2'']"
  let ?l = "runes ''key1 = value3''"
  let ?r = "test_flags(runes ''key1'' \<mapsto> string_setting (runes ''value3''))"
  have s: "Scan ?d None = (?pre @ ?l # [], None)"
    by (simp add: Scan.simps runes_def MaxScanTokenSize_def byte_len_def utf8_len_def dropCR_def)
  have 1: "one_file ''test.conf'' \<lparr>data = ?d, fault = None\<rparr> ''test.conf''
      = Inr \<lparr>data = ?d, fault = None\<rparr>"
    by (simp add: one_file_def)
  have 2: "Scan (data \<lparr>data = ?d, fault = None\<rparr>) (fault \<lparr>data = ?d, fault = None\<rparr>)
      = (?pre @ ?l # [], None)"
    using s by simp
  have "Load_loop registry_Set (?pre @ ?l # []) test_flags = (None, ?r)"
    by (simp add: runes_def TrimSpace_def IsSpace_def HasPrefix_def parse_line_def Cut_def
        registry_Set_def test_flags_def string_setting_def)
  then have 3: "Load registry_Set (one_file ''test.conf'' \<lparr>data = ?d, fault = None\<rparr>) ''test.conf''
      test_flags = (None, ?r)"
    using 1 2 by (simp add: Load_def)
  have 4: "parse_line ?l = Entry (runes ''key1'') (runes ''value3'')"
    by (simp add: runes_def TrimSpace_def IsSpace_def HasPrefix_def parse_line_def Cut_def)
  have 5: "\<forall>x\<in>set []. \<forall>v'. parse_line x \<noteq> Entry (runes ''key1'') v'" by simp
  note r = last_write_wins [where flags = test_flags and flags' = ?r
      and fs = "one_file ''test.conf'' \<lparr>data = ?d, fault = None\<rparr>" and path = "''test.conf''"
      and f = "\<lparr>data = ?d, fault = None\<rparr>" and pre = ?pre and l = ?l and post = "[]"
      and serr = None and k = "runes ''key1''" and v = "runes ''value3''" and ls = "[]",
      OF 1 2 3 4 5, THEN conjunct1]
  then have "map_option current (Lookup (runes ''key1'') ?r) = Some (runes ''value3'')"
    by (auto simp: Lookup_def test_flags_def string_setting_def)
  with s 3 show ?thesis by simp
qed

lemma Load_loop_two_runs:
  assumes "\<forall>n. map_option convert (p n) = map_option convert (q n)"
  shows "fst (Load_loop registry_Set ls p) = fst (Load_loop registry_Set ls q)
         \<and> (\<forall>n. snd (Load_loop registry_Set ls p) n = snd (Load_loop registry_Set ls q) n
                \<or> (snd (Load_loop registry_Set ls p) n = p n
                    \<and> snd (Load_loop registry_Set ls q) n = q n))"
  using assms
proof (induction ls arbitrary: p q)
  case Nil
  then show ?case by simp
next
  case (Cons x xs)
  show ?case
  proof (cases "parse_line x")
    case Skip
    with Cons show ?thesis by simp
  next
    case (NoSeparator line)
    then show ?thesis by simp
  next
    case (Entry n w)
    have c: "map_option convert (p n) = map_option convert (q n)"
      using Cons.prems by simp
    show ?thesis
    proof (cases "p n")
      case None
      with c have "q n = None" by simp
      with None Entry show ?thesis by (simp add: registry_Set_def)
    next
      case (Some sp)
      with c obtain sq where sq: "q n = Some sq" "convert sq = convert sp"
        by (cases "q n") auto
      show ?thesis
      proof (cases "convert sp w")
        case None
        with Some sq Entry show ?thesis by (simp add: registry_Set_def)
      next
        case (Some c)
        let ?p = "p(n \<mapsto> sp\<lparr>current := c\<rparr>)" and ?q = "q(n \<mapsto> sq\<lparr>current := c\<rparr>)"
        have same: "sp\<lparr>current := c\<rparr> = sq\<lparr>current := c\<rparr>"
          using sq(2) by (cases sp, cases sq) simp
        have sp: "registry_Set n w p = (None, ?p)"
          using \<open>p n = Some sp\<close> Some by (simp add: registry_Set_def)
        have sq': "registry_Set n w q = (None, ?q)"
          using sq Some by (simp add: registry_Set_def)
        have "\<forall>m. map_option convert (?p m) = map_option convert (?q m)"
          using Cons.prems sq(2) by simp
        then have ih: "fst (Load_loop registry_Set xs ?p) = fst (Load_loop registry_Set xs ?q)
            \<and> (\<forall>m. snd (Load_loop registry_Set xs ?p) m = snd (Load_loop registry_Set xs ?q) m
                \<or> (snd (Load_loop registry_Set xs ?p) m = ?p m
                    \<and> snd (Load_loop registry_Set xs ?q) m = ?q m))"
          by (rule Cons.IH)
        have "\<forall>m. snd (Load_loop registry_Set xs ?p) m = snd (Load_loop registry_Set xs ?q) m
                \<or> (snd (Load_loop registry_Set xs ?p) m = p m
                    \<and> snd (Load_loop registry_Set xs ?q) m = q m)"
        proof
          fix m
          show "snd (Load_loop registry_Set xs ?p) m = snd (Load_loop registry_Set xs ?q) m
                \<or> (snd (Load_loop registry_Set xs ?p) m = p m
                    \<and> snd (Load_loop registry_Set xs ?q) m = q m)"
            using ih [THEN conjunct2, rule_format, of m] same by (cases "m = n") auto
        qed
        with ih Entry sp sq' show ?thesis by simp
      qed
    qed
  qed
qed

lemma Load_loop_twice:
  "Load_loop registry_Set ls (snd (Load_loop registry_Set ls flags))
     = Load_loop registry_Set ls flags"
proof -
  let ?q = "snd (Load_loop registry_Set ls flags)"
  have "\<forall>n. map_option convert (flags n) = map_option convert (?q n)"
    by (simp add: Load_loop_convert)
  then have two: "fst (Load_loop registry_Set ls flags) = fst (Load_loop registry_Set ls ?q)
         \<and> (\<forall>n. snd (Load_loop registry_Set ls flags) n = snd (Load_loop registry_Set ls ?q) n
                \<or> (snd (Load_loop registry_Set ls flags) n = flags n
                    \<and> snd (Load_loop registry_Set ls ?q) n = ?q n))"
    by (rule Load_loop_two_runs)
  have "snd (Load_loop registry_Set ls ?q) n = ?q n" for n
    using two [THEN conjunct2, rule_format, of n] by auto
  then have "snd (Load_loop registry_Set ls ?q) = ?q" by (rule ext)
  with two show ?thesis by (simp add: prod_eq_iff)
qed

text \<open>
  C5, idempotence. Loading the same file a second time, from the registry the first
  load left, returns what the first load returned and leaves the registry as the
  first load left it, for every file system, path and starting registry.
\<close>

theorem load_twice_same_state:
  "snd (Load registry_Set fs path (snd (Load registry_Set fs path flags)))
     = snd (Load registry_Set fs path flags)
   \<and> fst (Load registry_Set fs path (snd (Load registry_Set fs path flags)))
     = fst (Load registry_Set fs path flags)"
proof (cases "fs path")
  case (Inl err)
  then show ?thesis by (simp add: Load_def)
next
  case (Inr f)
  obtain ls serr where s: "Scan (data f) (fault f) = (ls, serr)"
    by (cases "Scan (data f) (fault f)")
  have st: "snd (Load registry_Set fs path r) = snd (Load_loop registry_Set ls r)" for r
    using Inr s by (rule Load_state)
  have er: "fst (Load registry_Set fs path r) =
      (case fst (Load_loop registry_Set ls r) of
         Some e \<Rightarrow> Some e | None \<Rightarrow> map_option ScanFailed serr)" for r
    using Inr s by (cases "Load_loop registry_Set ls r") (auto simp: Load_def split: option.splits)
  show ?thesis
    by (simp add: st er Load_loop_twice)
qed

theorem load_twice_same_state_witness:
  "map_option current
     (Lookup (runes ''key1'')
        (snd (Load registry_Set
               (one_file ''test.conf''
                  \<lparr>data = runes ''key1 = a'' @ newline # runes ''key1 = b'', fault = None\<rparr>)
               ''test.conf''
               (snd (Load registry_Set
                      (one_file ''test.conf''
                         \<lparr>data = runes ''key1 = a'' @ newline # runes ''key1 = b'', fault = None\<rparr>)
                      ''test.conf'' test_flags)))))
   = Some (runes ''b'')"
proof -
  let ?d = "runes ''key1 = a'' @ newline # runes ''key1 = b''"
  have s: "Scan ?d None = ([runes ''key1 = a'', runes ''key1 = b''], None)"
    by (simp add: Scan.simps runes_def MaxScanTokenSize_def byte_len_def utf8_len_def dropCR_def)
  have "Load_loop registry_Set [runes ''key1 = a'', runes ''key1 = b''] test_flags
      = (None, test_flags(runes ''key1'' \<mapsto> string_setting (runes ''b'')))"
    by (simp add: runes_def TrimSpace_def IsSpace_def HasPrefix_def parse_line_def Cut_def
        registry_Set_def test_flags_def string_setting_def)
  then have "snd (Load registry_Set (one_file ''test.conf'' \<lparr>data = ?d, fault = None\<rparr>)
      ''test.conf'' test_flags) = test_flags(runes ''key1'' \<mapsto> string_setting (runes ''b''))"
    using s by (simp add: Load_def one_file_def)
  then show ?thesis
    using load_twice_same_state [where flags = test_flags and path = "''test.conf''"
        and fs = "one_file ''test.conf'' \<lparr>data = ?d, fault = None\<rparr>"]
    by (simp add: Lookup_def string_setting_def)
qed

end
